theory Spec2Isabelle
  imports Complex_Main "HOL-Library.Sublist"
begin

section \<open>The TM-align output parser (tmalign_parser.py)\<close>

text \<open>
  The script reads every per-query file \<^verbatim>\<open>c-tm/all/*.aln\<close>, splits its text at the
  TM-align banner, extracts one record per block with regular expressions, tabulates,
  sorts, filters by a score threshold and writes tab-separated tables.

  Conventions of the embedding.
  \<^item> A Python \<^verbatim>\<open>str\<close> is a \<open>string\<close>; a \<open>char\<close> stands for the code point of the
    same number, so the texts considered have code points below 256.
  \<^item> A Python \<^verbatim>\<open>float\<close> is a \<open>pyfloat\<close>: a finite binary64 value given by its exact
    rational value, an infinity or a NaN (the sign of zero is not kept).
  \<^item> A \<^verbatim>\<open>re\<close> pattern is a list of pattern items matched by backtracking in the order
    the \<^verbatim>\<open>re\<close> module tries the alternatives (greedy: longest first, lazy: shortest first).
  \<^item> A raised exception is a value \<open>Inl e\<close>.
  \<^item> Writing a table with \<^verbatim>\<open>to_csv\<close> and creating a folder are events appended to a log.
\<close>

subsection \<open>Character classes of the patterns\<close>

text \<open>
  \<^verbatim>\<open>\s\<close> on \<^verbatim>\<open>str\<close> is Unicode white space: below 256 these are the code points
  9 to 13, 28 to 32, 133 and 160. \<^verbatim>\<open>\d\<close> is a Unicode decimal digit: below 256 only
  \<^verbatim>\<open>0\<close> to \<^verbatim>\<open>9\<close>. The dot matches everything but the newline.
\<close>

definition is_space :: "char \<Rightarrow> bool" where
  "is_space c = ((of_char c :: nat) \<in> {9, 10, 11, 12, 13, 28, 29, 30, 31, 32, 133, 160})"

definition is_digit :: "char \<Rightarrow> bool" where
  "is_digit c = (48 \<le> (of_char c :: nat) \<and> (of_char c :: nat) \<le> 57)"

datatype cset =
    Chr char               \<comment> \<open>a literal character, as \<^verbatim>\<open>\*\<close> or \<^verbatim>\<open>\.\<close>\<close>
  | WS                     \<comment> \<open>\<^verbatim>\<open>\s\<close>\<close>
  | Dig                    \<comment> \<open>\<^verbatim>\<open>\d\<close>\<close>
  | AnyChar                \<comment> \<open>\<^verbatim>\<open>.\<close>\<close>
  | Either cset cset        \<comment> \<open>\<^verbatim>\<open>[ab]\<close>\<close>
  | Neg cset               \<comment> \<open>\<^verbatim>\<open>[^a]\<close>\<close>

fun in_cset :: "cset \<Rightarrow> char \<Rightarrow> bool" where
  "in_cset (Chr d) c = (c = d)"
| "in_cset WS c = is_space c"
| "in_cset Dig c = is_digit c"
| "in_cset AnyChar c = (c \<noteq> CHR 0x0A)"
| "in_cset (Either a b) c = (in_cset a c \<or> in_cset b c)"
| "in_cset (Neg a) c = (\<not> in_cset a c)"

subsection \<open>Backtracking matcher\<close>

text \<open>
  The patterns of the script are sequences of literals and of repetitions of one
  character class; the only capture group wraps one greedy \<^verbatim>\<open>+\<close>.
\<close>

datatype item =
    Lit string             \<comment> \<open>literal text\<close>
  | Star cset              \<comment> \<open>\<^verbatim>\<open>c*\<close>, greedy\<close>
  | Plus cset              \<comment> \<open>\<^verbatim>\<open>c+\<close>, greedy\<close>
  | LazyStar cset          \<comment> \<open>\<^verbatim>\<open>c*?\<close>, lazy\<close>
  | CapPlus cset           \<comment> \<open>\<^verbatim>\<open>(c+)\<close>, greedy, captured as group 1\<close>

fun first_some :: "('a \<Rightarrow> 'b option) \<Rightarrow> 'a list \<Rightarrow> 'b option" where
  "first_some f [] = None"
| "first_some f (x # xs) = (case f x of Some y \<Rightarrow> Some y | None \<Rightarrow> first_some f xs)"

definition run :: "cset \<Rightarrow> string \<Rightarrow> nat" where
  "run c s = length (takeWhile (in_cset c) s)"

text \<open>
  \<open>rmatch p s\<close> matches \<open>p\<close> at the start of \<open>s\<close>: the result is group 1 (empty when the
  pattern has no group) and the text left after the match. A repetition over a run of
  \<open>n\<close> class characters tries the lengths \<open>n, n - 1, \<dots>\<close> when greedy and
  \<open>0, 1, \<dots>\<close> when lazy, keeping the first with which the rest of the pattern matches.
\<close>

fun rmatch :: "item list \<Rightarrow> string \<Rightarrow> (string \<times> string) option" where
  "rmatch [] s = Some ([], s)"
| "rmatch (Lit l # r) s = (if prefix l s then rmatch r (drop (length l) s) else None)"
| "rmatch (Star c # r) s =
     first_some (\<lambda>j. rmatch r (drop j s)) (rev [0..<Suc (run c s)])"
| "rmatch (Plus c # r) s =
     first_some (\<lambda>j. rmatch r (drop j s)) (rev [1..<Suc (run c s)])"
| "rmatch (LazyStar c # r) s =
     first_some (\<lambda>j. rmatch r (drop j s)) [0..<Suc (run c s)]"
| "rmatch (CapPlus c # r) s =
     first_some (\<lambda>j. map_option (\<lambda>(g, t). (take j s, t)) (rmatch r (drop j s)))
       (rev [1..<Suc (run c s)])"

text \<open>\<^verbatim>\<open>re.search\<close>: the match at the leftmost position that has one.\<close>

fun re_search :: "item list \<Rightarrow> string \<Rightarrow> (string \<times> string) option" where
  "re_search p [] = rmatch p []"
| "re_search p (c # cs) =
     (case rmatch p (c # cs) of Some m \<Rightarrow> Some m | None \<Rightarrow> re_search p cs)"

text \<open>\<^verbatim>\<open>m.group(1) if m else ''\<close>\<close>

definition group1_or_empty :: "(string \<times> string) option \<Rightarrow> string" where
  "group1_or_empty m = (case m of Some (g, t) \<Rightarrow> g | None \<Rightarrow> [])"

subsection \<open>The patterns\<close>

definition banner_pat :: "item list" where
  \<comment> \<open>\<^verbatim>\<open>\*+\s*TM-align.*?\*+\<close>\<close>
  "banner_pat = [Plus (Chr CHR ''*''), Star WS, Lit ''TM-align'', LazyStar AnyChar,
     Plus (Chr CHR ''*'')]"

definition name2_pat :: "item list" where
  \<comment> \<open>\<^verbatim>\<open>Name of Chain_2:\s*([^\s(]+)\<close>\<close>
  "name2_pat = [Lit ''Name of Chain_2:'', Star WS, CapPlus (Neg (Either WS (Chr CHR ''('')))]"

definition qlen_pat :: "item list" where
  \<comment> \<open>\<^verbatim>\<open>Length of Chain_1:\s*(\d+)\<close>\<close>
  "qlen_pat = [Lit ''Length of Chain_1:'', Star WS, CapPlus Dig]"

definition tlen_pat :: "item list" where
  \<comment> \<open>\<^verbatim>\<open>Length of Chain_2:\s*(\d+)\<close>\<close>
  "tlen_pat = [Lit ''Length of Chain_2:'', Star WS, CapPlus Dig]"

definition rmsd_pat :: "item list" where
  \<comment> \<open>\<^verbatim>\<open>RMSD=\s*([\d\.]+)\<close>\<close>
  "rmsd_pat = [Lit ''RMSD='', Star WS, CapPlus (Either Dig (Chr CHR ''.''))]"

definition id_pat :: "item list" where
  \<comment> \<open>\<^verbatim>\<open>Seq_ID=n_identical/n_aligned=\s*([\d\.]+)\<close>\<close>
  "id_pat = [Lit ''Seq_ID=n_identical/n_aligned='', Star WS,
     CapPlus (Either Dig (Chr CHR ''.''))]"

definition s1_pat :: "item list" where
  \<comment> \<open>\<^verbatim>\<open>TM-score=\s*([\d\.]+)\s*\(if normalized by length of Chain_1,.*?\)\<close>\<close>
  "s1_pat = [Lit ''TM-score='', Star WS, CapPlus (Either Dig (Chr CHR ''.'')), Star WS,
     Lit ''(if normalized by length of Chain_1,'', LazyStar AnyChar, Lit '')'']"

definition s2_pat :: "item list" where
  \<comment> \<open>\<^verbatim>\<open>TM-score=\s*([\d\.]+)\s*\(if normalized by length of Chain_2,.*?\)\<close>\<close>
  "s2_pat = [Lit ''TM-score='', Star WS, CapPlus (Either Dig (Chr CHR ''.'')), Star WS,
     Lit ''(if normalized by length of Chain_2,'', LazyStar AnyChar, Lit '')'']"

subsection \<open>Leftmost match and \<^verbatim>\<open>re.split\<close>\<close>

text \<open>
  \<open>re_find p s\<close> is the leftmost match of \<open>p\<close> in \<open>s\<close>, as the text before it and the
  text after it.
\<close>

fun re_find :: "item list \<Rightarrow> string \<Rightarrow> (string \<times> string) option" where
  "re_find p [] = (case rmatch p [] of Some (g, t) \<Rightarrow> Some ([], t) | None \<Rightarrow> None)"
| "re_find p (c # cs) =
     (case rmatch p (c # cs) of
        Some (g, t) \<Rightarrow> Some ([], t)
      | None \<Rightarrow> (case re_find p cs of Some (pre, t) \<Rightarrow> Some (c # pre, t) | None \<Rightarrow> None))"

lemma first_some_SomeD: "first_some f xs = Some y \<Longrightarrow> \<exists>x \<in> set xs. f x = Some y"
  by (induction xs) (auto split: option.splits)

lemma first_some_None_iff: "first_some f xs = None \<longleftrightarrow> (\<forall>x \<in> set xs. f x = None)"
  by (induction xs) (auto split: option.splits)

lemma rmatch_StarD:
  "rmatch (Star c # r) s = Some m \<Longrightarrow> \<exists>j. j \<le> run c s \<and> rmatch r (drop j s) = Some m"
  unfolding rmatch.simps
  by (drule first_some_SomeD) (auto simp del: upt_Suc simp: less_Suc_eq_le)

lemma rmatch_PlusD:
  "rmatch (Plus c # r) s = Some m \<Longrightarrow>
     \<exists>j. 1 \<le> j \<and> j \<le> run c s \<and> rmatch r (drop j s) = Some m"
  unfolding rmatch.simps
  by (drule first_some_SomeD) (auto simp del: upt_Suc simp: less_Suc_eq_le)

lemma rmatch_LazyStarD:
  "rmatch (LazyStar c # r) s = Some m \<Longrightarrow>
     \<exists>j. j \<le> run c s \<and> rmatch r (drop j s) = Some m"
  unfolding rmatch.simps
  by (drule first_some_SomeD) (auto simp del: upt_Suc simp: less_Suc_eq_le)

lemma rmatch_CapPlusD:
  "rmatch (CapPlus c # r) s = Some (g, t) \<Longrightarrow>
     \<exists>j g'. 1 \<le> j \<and> j \<le> run c s \<and> g = take j s \<and> rmatch r (drop j s) = Some (g', t)"
  unfolding rmatch.simps
  by (drule first_some_SomeD) (auto simp del: upt_Suc simp: less_Suc_eq_le)

lemma rmatch_LitD:
  "rmatch (Lit l # r) s = Some m \<Longrightarrow> prefix l s \<and> rmatch r (drop (length l) s) = Some m"
  by (simp split: if_splits)

lemma rmatch_length: "rmatch p s = Some (g, t) \<Longrightarrow> length t \<le> length s"
proof (induction p arbitrary: s g t)
  case Nil
  then show ?case by simp
next
  case (Cons i r)
  show ?case
  proof (cases i)
    case (Lit l)
    with Cons.prems have "rmatch r (drop (length l) s) = Some (g, t)"
      by (auto simp del: rmatch.simps dest: rmatch_LitD)
    from Cons.IH [OF this] show ?thesis by simp
  next
    case (Star c)
    with Cons.prems obtain j where "rmatch r (drop j s) = Some (g, t)"
      by (auto simp del: rmatch.simps dest: rmatch_StarD)
    from Cons.IH [OF this] show ?thesis by simp
  next
    case (Plus c)
    with Cons.prems obtain j where "rmatch r (drop j s) = Some (g, t)"
      by (auto simp del: rmatch.simps dest: rmatch_PlusD)
    from Cons.IH [OF this] show ?thesis by simp
  next
    case (LazyStar c)
    with Cons.prems obtain j where "rmatch r (drop j s) = Some (g, t)"
      by (auto simp del: rmatch.simps dest: rmatch_LazyStarD)
    from Cons.IH [OF this] show ?thesis by simp
  next
    case (CapPlus c)
    with Cons.prems obtain j g' where "rmatch r (drop j s) = Some (g', t)"
      by (auto simp del: rmatch.simps dest: rmatch_CapPlusD)
    from Cons.IH [OF this] show ?thesis by simp
  qed
qed

lemma run_le_length: "run c s \<le> length s"
  by (simp add: run_def length_takeWhile_le)

lemma rmatch_Plus_shorter:
  assumes "rmatch (Plus c # r) s = Some (g, t)"
  shows "length t < length s"
proof -
  from rmatch_PlusD [OF assms]
  obtain j where j: "1 \<le> j" "j \<le> run c s" "rmatch r (drop j s) = Some (g, t)"
    by blast
  from rmatch_length [OF j(3)] have "length t \<le> length s - j" by simp
  moreover from j(1,2) run_le_length [of c s] have "0 < j" "j \<le> length s" by auto
  ultimately show ?thesis by linarith
qed

lemma re_find_Plus_shorter:
  "re_find (Plus c # r) s = Some (pre, t) \<Longrightarrow> length t < length s"
proof (induction s arbitrary: pre)
  case Nil
  then obtain g where "rmatch (Plus c # r) [] = Some (g, t)"
    by (auto simp del: rmatch.simps split: option.splits)
  from rmatch_Plus_shorter [OF this] show ?case .
next
  case (Cons a s)
  show ?case
  proof (cases "rmatch (Plus c # r) (a # s)")
    case None
    with Cons.prems obtain pre' where "re_find (Plus c # r) s = Some (pre', t)"
      by (auto simp del: rmatch.simps split: option.splits)
    from Cons.IH [OF this] show ?thesis by simp
  next
    case (Some m)
    with Cons.prems have "rmatch (Plus c # r) (a # s) = Some (fst m, t)"
      by (cases m) (auto simp del: rmatch.simps)
    then show ?thesis by (rule rmatch_Plus_shorter)
  qed
qed

text \<open>
  \<^verbatim>\<open>re.split(r'\*+\s*TM-align.*?\*+', text)\<close>: the text before the first match, then the
  split of the text after it; a text with no match is returned whole. The pattern has
  no group and matches no empty text.
\<close>

function re_split_banner :: "string \<Rightarrow> string list" where
  "re_split_banner s =
     (case re_find banner_pat s of
        None \<Rightarrow> [s]
      | Some (pre, t) \<Rightarrow> pre # re_split_banner t)"
  by pat_completeness auto
termination
  by (relation "measure length") (auto simp: banner_pat_def dest: re_find_Plus_shorter)

declare re_split_banner.simps [simp del]

subsection \<open>Floats\<close>

datatype pyfloat = Finite rat | PosInf | NegInf | NaN

text \<open>The comparisons of IEEE 754: every comparison with a NaN is false.\<close>

fun float_lt :: "pyfloat \<Rightarrow> pyfloat \<Rightarrow> bool" where
  "float_lt NaN y = False"
| "float_lt x NaN = False"
| "float_lt (Finite a) (Finite b) = (a < b)"
| "float_lt (Finite a) PosInf = True"
| "float_lt NegInf (Finite b) = True"
| "float_lt NegInf PosInf = True"
| "float_lt x y = False"

definition float_gt :: "pyfloat \<Rightarrow> pyfloat \<Rightarrow> bool" where
  "float_gt x y = float_lt y x"

definition float_ge :: "pyfloat \<Rightarrow> pyfloat \<Rightarrow> bool" where
  "float_ge x y = (x \<noteq> NaN \<and> y \<noteq> NaN \<and> \<not> float_lt x y)"

text \<open>
  The builtin \<^verbatim>\<open>max(a, b)\<close> keeps its first argument unless the second compares
  greater.
\<close>

definition py_max :: "pyfloat \<Rightarrow> pyfloat \<Rightarrow> pyfloat" where
  "py_max a b = (if float_gt b a then b else a)"

text \<open>
  Rounding a non-negative rational to binary64, to nearest with ties to even: the
  spacing of the doubles around \<open>q\<close> is \<open>2 ^ (e - 52)\<close> for the binary exponent \<open>e\<close> of \<open>q\<close>,
  not below \<open>- 1022\<close> (below it are the subnormals); a result of \<open>2 ^ 1024\<close> or more
  is the infinity.
\<close>

definition pow2 :: "int \<Rightarrow> rat" where
  "pow2 k = (if 0 \<le> k then 2 ^ nat k else 1 / 2 ^ nat (- k))"

function bit_length :: "int \<Rightarrow> nat" where
  "bit_length n = (if n \<le> 0 then 0 else Suc (bit_length (n div 2)))"
  by pat_completeness auto
termination
  by (relation "measure nat") auto

declare bit_length.simps [simp del]

definition floor_log2 :: "rat \<Rightarrow> int" where
  "floor_log2 q =
     (let (a, b) = quotient_of q;
          e0 = int (bit_length a) - int (bit_length b)
      in if pow2 e0 \<le> q then e0 else e0 - 1)"

definition round_half_even :: "rat \<Rightarrow> int" where
  "round_half_even x =
     (let f = \<lfloor>x\<rfloor>; d = x - of_int f
      in if d < 1 / 2 then f else if 1 / 2 < d then f + 1 else if even f then f else f + 1)"

definition round_to_double :: "rat \<Rightarrow> pyfloat" where
  "round_to_double q =
     (if q = 0 then Finite 0
      else let e = max (floor_log2 q) (- 1022);
               ulp = pow2 (e - 52);
               v = of_int (round_half_even (q / ulp)) * ulp
           in if pow2 1024 \<le> v then PosInf else Finite v)"

datatype error = ValueError string

text \<open>
  \<^verbatim>\<open>float(s)\<close>, on the strings the script gives it: a score string is group 1 of
  \<^verbatim>\<open>[\d\.]+\<close>, so it is made of digits and dots. Such a string is a float literal when
  it has at most one dot and at least one digit; otherwise \<^verbatim>\<open>float\<close> raises ValueError.
\<close>

definition digit_val :: "char \<Rightarrow> int" where
  "digit_val c = int (of_char c) - 48"

definition digits_val :: "string \<Rightarrow> int" where
  "digits_val ds = foldl (\<lambda>a c. 10 * a + digit_val c) 0 ds"

definition py_float :: "string \<Rightarrow> error + pyfloat" where
  "py_float s =
     (let ip = takeWhile is_digit s; r = dropWhile is_digit s
      in case r of
           [] \<Rightarrow> if ip = [] then Inl (ValueError s)
                 else Inr (round_to_double (of_int (digits_val ip)))
         | c # fp \<Rightarrow>
             if c = CHR ''.'' \<and> list_all is_digit fp \<and> (ip \<noteq> [] \<or> fp \<noteq> [])
             then Inr (round_to_double (of_int (digits_val (ip @ fp)) / 10 ^ length fp))
             else Inl (ValueError s))"

text \<open>
  \<^verbatim>\<open>
  try:
      chosen = max(float(score1) if score1 else 0.0, float(score2) if score2 else 0.0)
  except:
      chosen = 0.0
  \<close>
  The arguments are evaluated from left to right; an exception in either leaves the
  \<^verbatim>\<open>try\<close> block before \<^verbatim>\<open>max\<close> is called.
\<close>

definition float_or_zero :: "string \<Rightarrow> error + pyfloat" where
  "float_or_zero score = (if score \<noteq> [] then py_float score else Inr (Finite 0))"

definition chosen_of :: "string \<Rightarrow> string \<Rightarrow> pyfloat" where
  "chosen_of score1 score2 =
     (case float_or_zero score1 of
        Inl e \<Rightarrow> Finite 0
      | Inr a \<Rightarrow>
          (case float_or_zero score2 of
             Inl e \<Rightarrow> Finite 0
           | Inr b \<Rightarrow> py_max a b))"

subsection \<open>File names\<close>

text \<open>\<^verbatim>\<open>str.rfind\<close> of one character: the last index, or \<open>- 1\<close>.\<close>

definition rfind :: "char \<Rightarrow> string \<Rightarrow> int" where
  "rfind c p =
     (if c \<in> set p then int (length p) - 1 - int (length (takeWhile (\<lambda>d. d \<noteq> c) (rev p)))
      else - 1)"

text \<open>\<^verbatim>\<open>os.path.basename\<close> (posixpath): what follows the last slash.\<close>

definition os_path_basename :: "string \<Rightarrow> string" where
  "os_path_basename p = drop (nat (rfind CHR ''/'' p + 1)) p"

text \<open>
  \<^verbatim>\<open>os.path.splitext(p)[0]\<close>: the path is cut at its last dot when the dot comes after
  the last slash and some character between the two is not a dot.
\<close>

definition os_path_splitext_root :: "string \<Rightarrow> string" where
  "os_path_splitext_root p =
     (let sepIndex = rfind CHR ''/'' p; dotIndex = rfind CHR ''.'' p
      in if dotIndex > sepIndex \<and>
            list_ex (\<lambda>c. c \<noteq> CHR ''.'')
              (take (nat (dotIndex - (sepIndex + 1))) (drop (nat (sepIndex + 1)) p))
         then take (nat dotIndex) p
         else p)"

text \<open>\<^verbatim>\<open>os.path.dirname\<close>: the head up to the last slash, without its trailing slashes.\<close>

definition os_path_dirname :: "string \<Rightarrow> string" where
  "os_path_dirname p =
     (let head = take (nat (rfind CHR ''/'' p + 1)) p
      in if head \<noteq> [] \<and> list_ex (\<lambda>c. c \<noteq> CHR ''/'') head
         then rev (dropWhile (\<lambda>c. c = CHR ''/'') (rev head))
         else head)"

subsection \<open>Records\<close>

text \<open>
  One row of the table, in the order of the columns
  \<^verbatim>\<open>['query','template','qlen','tlen','RMSD','ident','TM1','TM2','chosen']\<close>.
\<close>

record arec =
  query :: string
  template :: string
  qlen :: string
  tlen :: string
  RMSD :: string
  ident :: string
  TM1 :: string
  TM2 :: string
  chosen :: pyfloat

text \<open>The body of the loop over the blocks (lines 75 to 102).\<close>

definition template_id_of :: "string \<Rightarrow> string" where
  "template_id_of block = group1_or_empty (re_search name2_pat block)"

definition parse_block :: "string \<Rightarrow> string \<Rightarrow> arec" where
  "parse_block basename block =
     (let query_file = basename @ ''.pdb'';
          template_id = template_id_of block;
          template_file = template_id @ ''.pdb'';
          qlen_v = group1_or_empty (re_search qlen_pat block);
          tlen_v = group1_or_empty (re_search tlen_pat block);
          rmsd_v = group1_or_empty (re_search rmsd_pat block);
          ident_v = group1_or_empty (re_search id_pat block);
          score1 = group1_or_empty (re_search s1_pat block);
          score2 = group1_or_empty (re_search s2_pat block)
      in \<lparr>query = query_file, template = template_file, qlen = qlen_v, tlen = tlen_v,
          RMSD = rmsd_v, ident = ident_v, TM1 = score1, TM2 = score2,
          chosen = chosen_of score1 score2\<rparr>)"

text \<open>\<^verbatim>\<open>blocks[1:]\<close> of a list that \<^verbatim>\<open>re.split\<close> never returns empty.\<close>

definition blocks_of :: "string \<Rightarrow> string list" where
  "blocks_of text = tl (re_split_banner text)"

definition parse_records :: "string \<Rightarrow> string \<Rightarrow> arec list" where
  "parse_records basename text = map (parse_block basename) (blocks_of text)"

subsection \<open>Tables, files and the run\<close>

text \<open>
  A data frame with the nine columns is the list of its rows. \<^verbatim>\<open>to_csv\<close> is the event
  of writing the rows to a path, with or without the header row; \<^verbatim>\<open>create_folder\<close> is
  the event of making a directory.
\<close>

datatype fs_event =
    MakeDirs string
  | ToCsv string bool "arec list"            \<comment> \<open>path, header, rows\<close>
  | CountsToCsv string "(string \<times> nat) list"  \<comment> \<open>path, rows of the (query, count) table\<close>

text \<open>
  \<^verbatim>\<open>pd.to_numeric(df['chosen'], errors='coerce')\<close>: every cell of the column is a float
  already and is kept.
\<close>

definition pd_to_numeric :: "pyfloat \<Rightarrow> pyfloat" where
  "pd_to_numeric x = x"

text \<open>\<^verbatim>\<open>df_sorted[df_sorted['chosen'] >= score_threshold]\<close>\<close>

definition stack_of :: "pyfloat \<Rightarrow> arec list \<Rightarrow> arec list" where
  "stack_of t df_sorted = filter (\<lambda>r. float_ge (chosen r) t) df_sorted"

text \<open>
  \<^verbatim>\<open>d[k] = v\<close> on a dict, which keeps the keys in the order of their first insertion.
\<close>

fun dict_set :: "('k \<times> 'v) list \<Rightarrow> 'k \<Rightarrow> 'v \<Rightarrow> ('k \<times> 'v) list" where
  "dict_set [] k v = [(k, v)]"
| "dict_set ((k', v') # d) k v =
     (if k' = k then (k, v) # d else (k', v') # dict_set d k v)"

text \<open>\<^verbatim>\<open>pd.concat(frames, ignore_index=True)\<close> raises ValueError on an empty list.\<close>

fun pd_concat :: "arec list list \<Rightarrow> error + arec list" where
  "pd_concat [] = Inl (ValueError ''No objects to concatenate'')"
| "pd_concat (f # fs) = Inr (concat (f # fs))"

text \<open>The module constants.\<close>

definition analysis_name :: string where
  "analysis_name = ''my_job''"

definition score_threshold :: pyfloat where
  \<comment> \<open>the double of the literal \<^verbatim>\<open>0.6\<close>\<close>
  "score_threshold = Finite (5404319552844595 / 9007199254740992)"

record pstate =
  all_summary :: "arec list list"
  stack_counts :: "(string \<times> nat) list"
  events :: "fs_event list"

text \<open>
  The body of the loop over the files (lines 67 to 119), for one path of the glob and
  the text read from it. \<^verbatim>\<open>df.sort_values('chosen', ascending=False)\<close> is called with the
  default \<^verbatim>\<open>kind='quicksort'\<close>; the order it gives is decided by the sorting kernel of
  the library, so the routine is the parameter \<open>sort_values\<close>.
\<close>

definition basename_of :: "string \<Rightarrow> string" where
  \<comment> \<open>\<^verbatim>\<open>os.path.splitext(os.path.basename(alnfile))[0]\<close>\<close>
  "basename_of alnfile = os_path_splitext_root (os_path_basename alnfile)"

definition process_file ::
  "(arec list \<Rightarrow> arec list) \<Rightarrow> pyfloat \<Rightarrow> pstate \<Rightarrow> string \<times> string \<Rightarrow> pstate" where
  "process_file sort_values threshold st f =
     (let alnfile = fst f; text = snd f;
          basename = basename_of alnfile;
          tab_out = ''c-tm/all_tab/'' @ basename @ ''.tab'';
          df = parse_records basename text;
          log1 = events st @ [ToCsv tab_out True df];
          df_num = map (\<lambda>r. r\<lparr>chosen := pd_to_numeric (chosen r)\<rparr>) df;
          df_sorted = sort_values df_num;
          sorted_out = ''c-tm/all_tab_sorted/'' @ basename @ ''_sorted.tab'';
          log2 = log1 @ [MakeDirs (os_path_dirname sorted_out), ToCsv sorted_out True df_sorted];
          stack = stack_of threshold df_sorted;
          log3 = (if stack \<noteq> []
                  then log2 @ [ToCsv (''tm-stacks/'' @ basename @ ''.tab'') False stack]
                  else log2)
      in \<lparr>all_summary = all_summary st @ [df_sorted],
          stack_counts = dict_set (stack_counts st) basename (length stack),
          events = log3\<rparr>)"

definition init_state :: pstate where
  "init_state = \<lparr>all_summary = [], stack_counts = [],
     events = [MakeDirs ''c-tm/all_tab'', MakeDirs ''c-tm/all_tab_sorted'', MakeDirs ''tm-stacks'']\<rparr>"

definition run_files ::
  "(arec list \<Rightarrow> arec list) \<Rightarrow> pyfloat \<Rightarrow> (string \<times> string) list \<Rightarrow> pstate" where
  "run_files sort_values threshold files =
     foldl (process_file sort_values threshold) init_state files"

text \<open>
  \<^verbatim>\<open>parse_and_save\<close>, for the list of the globbed paths with their texts and the date
  string of the run: the outcome and the log of the events.
\<close>

definition parse_and_save ::
  "(arec list \<Rightarrow> arec list) \<Rightarrow> pyfloat \<Rightarrow> string \<Rightarrow> (string \<times> string) list
     \<Rightarrow> (error + unit) \<times> fs_event list" where
  "parse_and_save sort_values threshold date_str files =
     (let st = run_files sort_values threshold files
      in case pd_concat (all_summary st) of
           Inl e \<Rightarrow> (Inl e, events st)
         | Inr combo \<Rightarrow>
             (Inr (),
              events st @
              [ToCsv (analysis_name @ ''_all_results_'' @ date_str @ ''.tab'') True combo,
               CountsToCsv (analysis_name @ ''_stack_counts_'' @ date_str @ ''.tab'')
                 (stack_counts st)]))"

section \<open>Properties\<close>

subsection \<open>The chosen score\<close>

lemma pow2_pos: "0 < pow2 k"
  by (simp add: pow2_def)

lemma round_half_even_nonneg: "0 \<le> x \<Longrightarrow> 0 \<le> round_half_even x"
proof -
  assume "0 \<le> x"
  then have "0 \<le> \<lfloor>x\<rfloor>" by simp
  then show ?thesis by (simp add: round_half_even_def Let_def)
qed

lemma round_to_double_nonneg:
  assumes "0 \<le> q"
  shows "float_ge (round_to_double q) (Finite 0)"
proof (cases "q = 0")
  case True
  then show ?thesis by (simp add: round_to_double_def float_ge_def)
next
  case False
  define u where "u = pow2 (max (floor_log2 q) (- 1022) - 52)"
  have u: "0 < u" unfolding u_def by (rule pow2_pos)
  with assms have "0 \<le> q / u" by simp
  then have "0 \<le> round_half_even (q / u)" by (rule round_half_even_nonneg)
  with u have "0 \<le> of_int (round_half_even (q / u)) * u" by simp
  with False show ?thesis
    by (simp add: round_to_double_def Let_def float_ge_def u_def)
qed

lemma digit_val_nonneg: "is_digit c \<Longrightarrow> 0 \<le> digit_val c"
  by (simp add: is_digit_def digit_val_def)

lemma foldl_digits_nonneg:
  "list_all is_digit ds \<Longrightarrow> 0 \<le> a \<Longrightarrow> 0 \<le> foldl (\<lambda>a c. 10 * a + digit_val c) a ds"
proof (induction ds arbitrary: a)
  case Nil
  then show ?case by simp
next
  case (Cons d ds)
  from Cons.prems have "0 \<le> 10 * a + digit_val d"
    using digit_val_nonneg [of d] by simp
  with Cons show ?case by simp
qed

lemma digits_val_nonneg: "list_all is_digit ds \<Longrightarrow> 0 \<le> digits_val ds"
  by (simp add: digits_val_def foldl_digits_nonneg)

lemma list_all_takeWhile: "list_all P (takeWhile P xs)"
  by (induction xs) auto

lemma py_float_nonneg:
  assumes "py_float s = Inr v"
  shows "float_ge v (Finite 0)"
proof (cases "dropWhile is_digit s")
  case Nil
  with assms have "v = round_to_double (of_int (digits_val (takeWhile is_digit s)))"
    by (auto simp: py_float_def Let_def split: if_splits)
  moreover have "0 \<le> digits_val (takeWhile is_digit s)"
    by (rule digits_val_nonneg) (rule list_all_takeWhile)
  ultimately show ?thesis by (simp add: round_to_double_nonneg)
next
  case (Cons c fp)
  with assms have v: "v = round_to_double
      (of_int (digits_val (takeWhile is_digit s @ fp)) / 10 ^ length fp)"
    and fp: "list_all is_digit fp"
    by (auto simp: py_float_def Let_def split: if_splits)
  from fp have "0 \<le> digits_val (takeWhile is_digit s @ fp)"
    by (intro digits_val_nonneg) (simp add: list_all_takeWhile)
  then have "(0::rat) \<le> of_int (digits_val (takeWhile is_digit s @ fp)) / 10 ^ length fp"
    by simp
  with v show ?thesis by (simp add: round_to_double_nonneg)
qed

lemma float_or_zero_nonneg: "float_or_zero s = Inr v \<Longrightarrow> float_ge v (Finite 0)"
  by (auto simp: float_or_zero_def float_ge_def dest: py_float_nonneg split: if_splits)

lemma py_max_nonneg:
  "float_ge a (Finite 0) \<Longrightarrow> float_ge b (Finite 0) \<Longrightarrow> float_ge (py_max a b) (Finite 0)"
  by (simp add: py_max_def)

lemma chosen_of_cases:
  "(float_or_zero s1 = Inr a \<and> float_or_zero s2 = Inr b \<longrightarrow> chosen_of s1 s2 = py_max a b) \<and>
   (float_or_zero s1 = Inl e \<or> float_or_zero s2 = Inl e \<longrightarrow> chosen_of s1 s2 = Finite 0)"
  by (auto simp: chosen_of_def split: sum.splits)

lemma chosen_of_nonneg: "float_ge (chosen_of s1 s2) (Finite 0)"
proof (cases "float_or_zero s1")
  case (Inl e)
  then show ?thesis by (simp add: chosen_of_def float_ge_def)
next
  case a: (Inr a)
  show ?thesis
  proof (cases "float_or_zero s2")
    case (Inl e)
    with a show ?thesis by (simp add: chosen_of_def float_ge_def)
  next
    case (Inr b)
    with a show ?thesis
      by (simp add: chosen_of_def py_max_nonneg float_or_zero_nonneg)
  qed
qed

text \<open>
  The rounding is to the nearest double: the exponent found is the binary exponent of
  \<open>q\<close>, and the value returned is a multiple of the spacing at most half a spacing
  away from \<open>q\<close>.
\<close>

lemma bit_length_bounds:
  "0 < n \<Longrightarrow> 2 ^ (bit_length n - 1) \<le> n \<and> n < 2 ^ bit_length n"
proof (induction n rule: bit_length.induct)
  case (1 n)
  show ?case
  proof (cases "n = 1")
    case True
    then show ?thesis by (simp add: bit_length.simps)
  next
    case False
    with "1.prems" have h: "0 < n div 2" by simp
    with "1.IH" "1.prems" have ih:
      "2 ^ (bit_length (n div 2) - 1) \<le> n div 2" "n div 2 < 2 ^ bit_length (n div 2)"
      by simp_all
    from h have pos: "0 < bit_length (n div 2)"
      by (subst bit_length.simps) simp
    have bl: "bit_length n = Suc (bit_length (n div 2))"
      using "1.prems" by (subst bit_length.simps) simp
    from pos obtain k where k: "bit_length (n div 2) = Suc k" by (cases "bit_length (n div 2)") auto
    from ih k have "2 * 2 ^ k \<le> 2 * (n div 2)" by simp
    also have "\<dots> \<le> n" by simp
    finally have lo: "2 ^ (bit_length n - 1) \<le> n" by (simp add: bl k)
    from ih(2) have "n div 2 + 1 \<le> 2 ^ bit_length (n div 2)" by simp
    then have "2 * (n div 2) + 2 \<le> 2 * 2 ^ bit_length (n div 2)" by simp
    moreover have "n < 2 * (n div 2) + 2" by presburger
    ultimately have "n < 2 ^ bit_length n" by (simp add: bl)
    with lo show ?thesis by simp
  qed
qed

lemma pow2_powi: "pow2 k = 2 powi k"
  by (simp add: pow2_def power_int_def inverse_eq_divide power_one_over)

lemma floor_log2_correct:
  assumes "0 < q"
  shows "pow2 (floor_log2 q) \<le> q \<and> q < pow2 (floor_log2 q + 1)"
proof -
  obtain a b where ab: "quotient_of q = (a, b)" by (cases "quotient_of q")
  then have b: "0 < b" and q: "q = of_int a / of_int b"
    by (simp_all add: quotient_of_denom_pos quotient_of_div)
  with assms have a: "0 < a"
    by (simp add: zero_less_divide_iff)
  define la lb where "la = bit_length a" and "lb = bit_length b"
  from bit_length_bounds [OF a] bit_length_bounds [OF b]
  have ba: "2 ^ (la - 1) \<le> a" "a < 2 ^ la" and bb: "2 ^ (lb - 1) \<le> b" "b < 2 ^ lb"
    by (simp_all add: la_def lb_def)
  have la: "0 < la" using ba(2) a by (cases la) auto
  have lb: "0 < lb" using bb(2) b by (cases lb) auto
  have ra: "(2::rat) ^ (la - 1) \<le> of_int a" "of_int a < (2::rat) ^ la"
    using ba by (metis of_int_le_iff of_int_numeral of_int_power, metis of_int_less_iff of_int_numeral of_int_power)
  have rb: "(2::rat) ^ (lb - 1) \<le> of_int b" "of_int b < (2::rat) ^ lb"
    using bb by (metis of_int_le_iff of_int_numeral of_int_power, metis of_int_less_iff of_int_numeral of_int_power)
  have bpos: "(0::rat) < of_int b" using b by simp
  have up: "q < pow2 (int la - int lb + 1)"
  proof -
    have "pow2 (int la - int lb + 1) = 2 ^ la / 2 ^ (lb - 1)"
      using lb by (simp add: pow2_powi power_int_diff power_int_add of_nat_diff Suc_leI algebra_simps flip: power_int_of_nat)
    moreover have "of_int a / of_int b < (2::rat) ^ la / 2 ^ (lb - 1)"
      using ra(2) rb(1) bpos a by (intro frac_less) auto
    ultimately show ?thesis by (simp add: q)
  qed
  have lo: "pow2 (int la - int lb - 1) \<le> q"
  proof -
    have "pow2 (int la - int lb - 1) = 2 ^ (la - 1) / 2 ^ lb"
      using la by (simp add: pow2_powi power_int_diff of_nat_diff Suc_leI flip: power_int_of_nat)
    moreover have "(2::rat) ^ (la - 1) / 2 ^ lb \<le> of_int a / of_int b"
      using ra(1) rb(2) bpos a by (intro frac_le) auto
    ultimately show ?thesis by (simp add: q)
  qed
  show ?thesis
    using up lo ab
    by (auto simp: floor_log2_def Let_def la_def lb_def not_le)
qed


lemma round_half_even_near: "\<bar>of_int (round_half_even x) - x\<bar> \<le> 1 / 2"
proof -
  have "of_int \<lfloor>x\<rfloor> \<le> x" and "x < of_int \<lfloor>x\<rfloor> + 1"
    by linarith+
  then show ?thesis
    by (auto simp: round_half_even_def Let_def abs_le_iff)
qed

lemma round_to_double_near:
  assumes "0 < q" and "round_to_double q = Finite v"
  shows "\<exists>m. v = of_int m * pow2 (max (floor_log2 q) (- 1022) - 52) \<and>
    \<bar>v - q\<bar> \<le> pow2 (max (floor_log2 q) (- 1022) - 52) / 2"
proof -
  define u where "u = pow2 (max (floor_log2 q) (- 1022) - 52)"
  have u: "0 < u" unfolding u_def by (rule pow2_pos)
  from assms have v: "v = of_int (round_half_even (q / u)) * u"
    by (auto simp: round_to_double_def Let_def u_def split: if_splits)
  have "\<bar>of_int (round_half_even (q / u)) - q / u\<bar> * u \<le> (1 / 2) * u"
    using round_half_even_near [of "q / u"] u by (intro mult_right_mono) auto
  moreover have "\<bar>of_int (round_half_even (q / u)) - q / u\<bar> * u = \<bar>v - q\<bar>"
  proof -
    have "\<bar>of_int (round_half_even (q / u)) - q / u\<bar> * u =
        \<bar>(of_int (round_half_even (q / u)) - q / u) * u\<bar>"
      using u by (simp add: abs_mult)
    also have "(of_int (round_half_even (q / u)) - q / u) * u = v - q"
      using u by (simp add: v left_diff_distrib)
    finally show ?thesis .
  qed
  ultimately have "\<bar>v - q\<bar> \<le> u / 2" by simp
  with v show ?thesis unfolding u_def by blast
qed

text \<open>
  The score strings are group 1 of \<^verbatim>\<open>[\d\.]+\<close>: whatever the block, they hold digits and
  dots only, the strings for which \<open>py_float\<close> is written.
\<close>

lemma take_run_class: "j \<le> run c s \<Longrightarrow> list_all (in_cset c) (take j s)"
proof -
  assume "j \<le> run c s"
  then have "take j s = take j (takeWhile (in_cset c) s)"
    by (metis run_def takeWhile_eq_take take_take min.absorb1)
  then show ?thesis
    by (metis list_all_takeWhile list_all_iff in_set_takeD)
qed

lemma rmatch_group_class:
  "rmatch (Lit l # Star w # CapPlus c # r) s = Some (g, t) \<Longrightarrow> list_all (in_cset c) g"
  by (auto simp del: rmatch.simps dest!: rmatch_LitD rmatch_StarD rmatch_CapPlusD
      intro: take_run_class)

lemma re_search_SomeD: "re_search p s = Some m \<Longrightarrow> \<exists>i. rmatch p (drop i s) = Some m"
proof (induction s)
  case Nil
  then show ?case by (auto simp del: rmatch.simps)
next
  case (Cons c cs)
  show ?case
  proof (cases "rmatch p (c # cs)")
    case None
    with Cons obtain i where "rmatch p (drop i cs) = Some m"
      by (auto simp del: rmatch.simps)
    then have "rmatch p (drop (Suc i) (c # cs)) = Some m" by simp
    then show ?thesis by blast
  next
    case (Some a)
    with Cons.prems have "rmatch p (drop 0 (c # cs)) = Some m"
      by (simp del: rmatch.simps)
    then show ?thesis by blast
  qed
qed

lemma group1_class:
  "list_all (in_cset c) (group1_or_empty (re_search (Lit l # Star w # CapPlus c # r) s))"
proof (cases "re_search (Lit l # Star w # CapPlus c # r) s")
  case None
  then show ?thesis by (simp add: group1_or_empty_def)
next
  case (Some m)
  obtain g t where m: "m = (g, t)" by (cases m)
  from re_search_SomeD [OF Some] m rmatch_group_class have "list_all (in_cset c) g"
    by blast
  with Some m show ?thesis by (simp add: group1_or_empty_def)
qed

lemma score_strings_digits_dots:
  "list_all (\<lambda>c. is_digit c \<or> c = CHR ''.'') (TM1 (parse_block b block)) \<and>
   list_all (\<lambda>c. is_digit c \<or> c = CHR ''.'') (TM2 (parse_block b block))"
proof -
  have "list_all (\<lambda>c. is_digit c \<or> c = CHR ''.'') xs"
    if "list_all (in_cset (Either Dig (Chr CHR ''.''))) xs" for xs
    using that by (simp add: list_all_iff)
  then show ?thesis
    by (simp add: parse_block_def Let_def s1_pat_def s2_pat_def group1_class)
qed

text \<open>Two blocks used as concrete inputs.\<close>

definition block_two_scores :: string where
  "block_two_scores =
     ''TM-score= 0.72 (if normalized by length of Chain_1, i.e., LN=141)'' @ [CHR 0x0A] @
     ''TM-score= 0.65 (if normalized by length of Chain_2, i.e., LN=146)''"

definition block_bad_score :: string where
  "block_bad_score =
     ''TM-score= 1.2.3 (if normalized by length of Chain_1, i.e., LN=141)'' @ [CHR 0x0A] @
     ''TM-score= 0.8 (if normalized by length of Chain_2, i.e., LN=146)''"

lemma two_scores_fields:
  "TM1 (parse_block ''qA'' block_two_scores) = ''0.72'' \<and>
   TM2 (parse_block ''qA'' block_two_scores) = ''0.65''"
  by code_simp

lemma float_072: "float_or_zero ''0.72'' = Inr (Finite (3242591731706757 / 4503599627370496))"
  by code_simp

lemma float_065: "float_or_zero ''0.65'' = Inr (Finite (5854679515581645 / 9007199254740992))"
  by code_simp

lemma bad_score_fields:
  "TM1 (parse_block ''qA'' block_bad_score) = ''1.2.3'' \<and>
   TM2 (parse_block ''qA'' block_bad_score) = ''0.8''"
  by code_simp

lemma float_1_2_3: "py_float ''1.2.3'' = Inl (ValueError ''1.2.3'')"
  by code_simp

lemma float_08: "py_float ''0.8'' = Inr (Finite (3602879701896397 / 4503599627370496))"
  by code_simp

text \<open>
  C1, as the code has it. When both score strings are absent or parse, the chosen score
  is the \<^verbatim>\<open>max\<close> of the two floats, an absent score counting as 0.0. When a score string
  that is present does not parse, the \<^verbatim>\<open>except\<close> branch sets the chosen score to 0.0,
  whatever the other score is. No exception leaves the block, and the chosen score is
  never below 0.0.
\<close>

theorem C1_chosen_score:
  "(float_or_zero (TM1 (parse_block b block)) = Inr x \<and>
    float_or_zero (TM2 (parse_block b block)) = Inr y
      \<longrightarrow> chosen (parse_block b block) = py_max x y) \<and>
   (float_or_zero (TM1 (parse_block b block)) = Inl e \<or>
    float_or_zero (TM2 (parse_block b block)) = Inl e
      \<longrightarrow> chosen (parse_block b block) = Finite 0) \<and>
   float_or_zero [] = Inr (Finite 0) \<and>
   float_ge (chosen (parse_block b block)) (Finite 0)"
  using chosen_of_cases [of "TM1 (parse_block b block)" x "TM2 (parse_block b block)" y e]
    chosen_of_nonneg [of "TM1 (parse_block b block)" "TM2 (parse_block b block)"]
  by (simp add: parse_block_def Let_def float_or_zero_def)

theorem C1_chosen_score_witness:
  "chosen (parse_block ''qA'' block_two_scores) =
     Finite (3242591731706757 / 4503599627370496) \<and>
   chosen (parse_block ''qA'' block_bad_score) = Finite 0"
proof -
  have "chosen (parse_block ''qA'' block_two_scores) =
      py_max (Finite (3242591731706757 / 4503599627370496))
        (Finite (5854679515581645 / 9007199254740992))"
    using C1_chosen_score [of "''qA''" block_two_scores
        "Finite (3242591731706757 / 4503599627370496)"
        "Finite (5854679515581645 / 9007199254740992)" "ValueError []"]
      two_scores_fields float_072 float_065
    by simp
  moreover have "chosen (parse_block ''qA'' block_bad_score) = Finite 0"
    using C1_chosen_score [of "''qA''" block_bad_score x y "ValueError ''1.2.3''" for x y]
      bad_score_fields float_1_2_3
    by (simp add: float_or_zero_def)
  ultimately show ?thesis
    by (simp add: py_max_def float_gt_def)
qed

text \<open>
  The claim as stated fails on a block whose first score is \<^verbatim>\<open>1.2.3\<close> and whose second
  is \<^verbatim>\<open>0.8\<close>: the first does not parse, the second does, and the chosen score is 0.0,
  not the \<^verbatim>\<open>max\<close> of 0.0 and the double of 0.8.
\<close>

theorem C1_per_value_fallback_counterexample:
  "TM1 (parse_block ''qA'' block_bad_score) = ''1.2.3'' \<and>
   TM2 (parse_block ''qA'' block_bad_score) = ''0.8'' \<and>
   py_float ''1.2.3'' = Inl (ValueError ''1.2.3'') \<and>
   py_float ''0.8'' = Inr (Finite (3602879701896397 / 4503599627370496)) \<and>
   chosen (parse_block ''qA'' block_bad_score) = Finite 0 \<and>
   chosen (parse_block ''qA'' block_bad_score) \<noteq>
     py_max (Finite 0) (Finite (3602879701896397 / 4503599627370496))"
proof -
  have "chosen (parse_block ''qA'' block_bad_score) =
      chosen_of (TM1 (parse_block ''qA'' block_bad_score))
        (TM2 (parse_block ''qA'' block_bad_score))"
    by (simp add: parse_block_def Let_def)
  then have "chosen (parse_block ''qA'' block_bad_score) = Finite 0"
    using bad_score_fields float_1_2_3
    by (simp add: chosen_of_def float_or_zero_def)
  then show ?thesis
    using bad_score_fields float_1_2_3 float_08
    by (simp add: py_max_def float_gt_def)
qed

subsection \<open>The stack\<close>

text \<open>
  C4. A row of the sorted table is in the stack exactly when its chosen score is a
  number (not NaN) and is at least the threshold. The bound is inclusive: under the
  default threshold a row whose chosen score is the double of 0.6 is kept. A row whose
  chosen score is NaN is left out.
\<close>

theorem C4_stack_filter:
  "(r \<in> set (stack_of t df_sorted) \<longleftrightarrow>
      r \<in> set df_sorted \<and> chosen r \<noteq> NaN \<and> float_ge (chosen r) t) \<and>
   (r \<in> set df_sorted \<and> chosen r = score_threshold
      \<longrightarrow> r \<in> set (stack_of score_threshold df_sorted)) \<and>
   (chosen r = NaN \<longrightarrow> r \<notin> set (stack_of t df_sorted))"
  by (auto simp: stack_of_def float_ge_def score_threshold_def)

theorem C4_stack_filter_witness:
  "stack_of score_threshold
     [\<lparr>query = ''q'', template = ''a'', qlen = [], tlen = [], RMSD = [], ident = [],
        TM1 = [], TM2 = [], chosen = NaN\<rparr>,
      \<lparr>query = ''q'', template = ''b'', qlen = [], tlen = [], RMSD = [], ident = [],
        TM1 = ''0.6'', TM2 = [], chosen = score_threshold\<rparr>,
      \<lparr>query = ''q'', template = ''c'', qlen = [], tlen = [], RMSD = [], ident = [],
        TM1 = ''0.5'', TM2 = [], chosen = Finite (1 / 2)\<rparr>] =
     [\<lparr>query = ''q'', template = ''b'', qlen = [], tlen = [], RMSD = [], ident = [],
        TM1 = ''0.6'', TM2 = [], chosen = score_threshold\<rparr>]"
proof -
  let ?a = "\<lparr>query = ''q'', template = ''a'', qlen = [], tlen = [], RMSD = [], ident = [],
        TM1 = [], TM2 = [], chosen = NaN\<rparr>"
  let ?b = "\<lparr>query = ''q'', template = ''b'', qlen = [], tlen = [], RMSD = [], ident = [],
        TM1 = ''0.6'', TM2 = [], chosen = score_threshold\<rparr>"
  let ?c = "\<lparr>query = ''q'', template = ''c'', qlen = [], tlen = [], RMSD = [], ident = [],
        TM1 = ''0.5'', TM2 = [], chosen = Finite (1 / 2)\<rparr>"
  have "?b \<in> set (stack_of score_threshold [?a, ?b, ?c])"
    using C4_stack_filter [of ?b score_threshold "[?a, ?b, ?c]"]
    by (simp add: float_ge_def score_threshold_def)
  moreover have "?a \<notin> set (stack_of score_threshold [?a, ?b, ?c])"
    using C4_stack_filter [of ?a score_threshold "[?a, ?b, ?c]"]
    by (simp add: float_ge_def score_threshold_def)
  moreover have "?c \<notin> set (stack_of score_threshold [?a, ?b, ?c])"
    using C4_stack_filter [of ?c score_threshold "[?a, ?b, ?c]"]
    by (simp add: float_ge_def score_threshold_def)
  ultimately show ?thesis
    by (simp add: stack_of_def split: if_splits)
qed

subsection \<open>Fields of a record\<close>

lemma re_search_Lit_None: "\<not> sublist l s \<Longrightarrow> re_search (Lit l # r) s = None"
proof (induction s)
  case Nil
  then show ?case by (auto simp: prefix_def)
next
  case (Cons c cs)
  from Cons.prems have "\<not> prefix l (c # cs)" and "\<not> sublist l cs"
    by (auto simp: sublist_Cons_right)
  with Cons.IH show ?case by simp
qed

lemma group1_missing:
  "\<not> sublist l s \<Longrightarrow> group1_or_empty (re_search (Lit l # r) s) = []"
  by (simp add: re_search_Lit_None group1_or_empty_def)

lemma sublist_longer_label:
  "\<not> sublist l s \<Longrightarrow> \<not> sublist (l @ e) s"
  by (metis sublist_appendI sublist_order.order.trans prefix_imp_sublist prefixI)






text \<open>
  C7. A block in which the text \<^verbatim>\<open>Name of Chain_2\<close> does not occur has no match of the
  name pattern: the template identifier is the empty string (and the template column
  is then \<^verbatim>\<open>.pdb\<close>). The extraction is a total function with a string as its value: it
  has no error to raise.
\<close>

theorem C7_no_name_line:
  "\<not> sublist ''Name of Chain_2'' block \<Longrightarrow>
     template_id_of block = [] \<and> template (parse_block b block) = ''.pdb''"
proof -
  assume "\<not> sublist ''Name of Chain_2'' block"
  then have "\<not> sublist (''Name of Chain_2'' @ '':'') block"
    by (rule sublist_longer_label)
  then have "template_id_of block = []"
    by (simp add: template_id_of_def name2_pat_def group1_missing)
  then show ?thesis by (simp add: parse_block_def Let_def)
qed

lemma two_scores_no_name: "\<not> sublist ''Name of Chain_2'' block_two_scores"
  by code_simp

theorem C7_no_name_line_witness:
  "\<not> sublist ''Name of Chain_2'' block_two_scores \<and>
   template_id_of block_two_scores = [] \<and>
   template (parse_block ''qA'' block_two_scores) = ''.pdb''"
  using C7_no_name_line [OF two_scores_no_name, of "''qA''"] two_scores_no_name
  by simp









subsection \<open>The block splitter\<close>

lemma rmatch_suffix: "rmatch p s = Some (g, t) \<Longrightarrow> suffix t s"
proof (induction p arbitrary: s g t)
  case Nil
  then show ?case by simp
next
  case (Cons i r)
  have step: "suffix t s" if "rmatch r (drop j s) = Some (g', t)" for j g'
    using Cons.IH [OF that] suffix_drop [of j s] by (rule suffix_order.trans)
  show ?case
  proof (cases i)
    case (Lit l)
    with Cons.prems step show ?thesis
      by (auto simp del: rmatch.simps dest: rmatch_LitD)
  next
    case (Star c)
    with Cons.prems step show ?thesis
      by (auto simp del: rmatch.simps dest: rmatch_StarD)
  next
    case (Plus c)
    with Cons.prems step show ?thesis
      by (auto simp del: rmatch.simps dest: rmatch_PlusD)
  next
    case (LazyStar c)
    with Cons.prems step show ?thesis
      by (auto simp del: rmatch.simps dest: rmatch_LazyStarD)
  next
    case (CapPlus c)
    with Cons.prems step show ?thesis
      by (auto simp del: rmatch.simps dest: rmatch_CapPlusD)
  qed
qed

lemma re_find_None_iff:
  "re_find p s = None \<longleftrightarrow> (\<forall>i \<le> length s. rmatch p (drop i s) = None)"
proof (induction s)
  case Nil
  then show ?case by (auto simp del: rmatch.simps split: option.splits)
next
  case (Cons c cs)
  have "(\<forall>i \<le> length (c # cs). rmatch p (drop i (c # cs)) = None) \<longleftrightarrow>
      rmatch p (c # cs) = None \<and> (\<forall>i \<le> length cs. rmatch p (drop i cs) = None)"
    (is "?L \<longleftrightarrow> ?R")
  proof
    assume l: ?L
    from l have "rmatch p (drop 0 (c # cs)) = None" by blast
    moreover have "rmatch p (drop i cs) = None" if "i \<le> length cs" for i
      using l [rule_format, of "Suc i"] that by simp
    ultimately show ?R by simp
  next
    assume r: ?R
    show ?L
    proof (intro allI impI)
      fix i assume "i \<le> length (c # cs)"
      with r show "rmatch p (drop i (c # cs)) = None"
        by (cases i) auto
    qed
  qed
  with Cons.IH show ?case
    by (auto simp del: rmatch.simps split: option.splits)
qed

lemma re_find_SomeD:
  "re_find p s = Some (pre, t) \<Longrightarrow>
     (\<exists>g. rmatch p (drop (length pre) s) = Some (g, t)) \<and>
     pre = take (length pre) s \<and> length pre \<le> length s \<and>
     (\<forall>i < length pre. rmatch p (drop i s) = None)"
proof (induction s arbitrary: pre)
  case Nil
  then show ?case by (auto simp del: rmatch.simps split: option.splits)
next
  case (Cons c cs)
  show ?case
  proof (cases "rmatch p (c # cs)")
    case (Some m)
    with Cons.prems have "pre = []" "snd m = t"
      by (auto simp del: rmatch.simps split: prod.splits)
    with Some show ?thesis by (cases m) (auto simp del: rmatch.simps)
  next
    case None
    with Cons.prems obtain pre' where pre': "re_find p cs = Some (pre', t)" "pre = c # pre'"
      by (auto simp del: rmatch.simps split: option.splits)
    from Cons.IH [OF pre'(1)] have ih:
      "\<exists>g. rmatch p (drop (length pre') cs) = Some (g, t)"
      "pre' = take (length pre') cs" "length pre' \<le> length cs"
      "\<forall>i < length pre'. rmatch p (drop i cs) = None"
      by blast+
    have "rmatch p (drop i (c # cs)) = None" if "i < length pre" for i
      using that None ih(4) pre'(2) by (cases i) auto
    with ih pre'(2) show ?thesis by (auto simp del: rmatch.simps)
  qed
qed

lemma re_find_decompose:
  assumes "re_find (Plus c # r) s = Some (pre, t)"
  shows "\<exists>g m. m \<noteq> [] \<and> s = pre @ m @ t \<and> rmatch (Plus c # r) (m @ t) = Some (g, t)"
proof -
  from re_find_SomeD [OF assms] obtain g where
    g: "rmatch (Plus c # r) (drop (length pre) s) = Some (g, t)"
    and pre: "pre = take (length pre) s"
    by blast
  from rmatch_suffix [OF g] obtain m where m: "drop (length pre) s = m @ t"
    by (auto simp: suffix_def)
  from rmatch_Plus_shorter [OF g] m have "m \<noteq> []" by auto
  moreover have "s = pre @ m @ t"
    using pre m by (metis append_take_drop_id)
  ultimately show ?thesis using g m by auto
qed

lemma re_split_banner_None: "re_find banner_pat s = None \<Longrightarrow> re_split_banner s = [s]"
  by (subst re_split_banner.simps) simp

lemma re_split_banner_Some:
  "re_find banner_pat s = Some (pre, t) \<Longrightarrow> re_split_banner s = pre # re_split_banner t"
  by (subst re_split_banner.simps) simp

text \<open>
  C6. A banner occurs at a position of the text when the banner pattern matches there.
  If it occurs nowhere, \<^verbatim>\<open>re.split\<close> returns the text whole, \<^verbatim>\<open>blocks[1:]\<close> is empty
  and the per-query table has no row. Otherwise the text is the segment before the
  leftmost banner, the banner (which is not empty), and the rest; the segment before
  is dropped, and the blocks are the split of the rest, in the order of the text: its
  first segment, then the segments after each further banner. Every block gives one
  record. No case of the splitter is an error.
\<close>

theorem C6_block_splitter:
  "(re_find banner_pat text = None \<longrightarrow>
      (\<forall>i \<le> length text. rmatch banner_pat (drop i text) = None) \<and>
      re_split_banner text = [text] \<and> blocks_of text = [] \<and> parse_records b text = []) \<and>
   (re_find banner_pat text = Some (pre, rest) \<longrightarrow>
      (\<exists>g m. m \<noteq> [] \<and> text = pre @ m @ rest \<and>
         rmatch banner_pat (m @ rest) = Some (g, rest)) \<and>
      (\<forall>i < length pre. rmatch banner_pat (drop i text) = None) \<and>
      re_split_banner text = pre # re_split_banner rest \<and>
      blocks_of text = re_split_banner rest \<and>
      parse_records b text = map (parse_block b) (re_split_banner rest))"
proof (intro conjI impI)
  assume n: "re_find banner_pat text = None"
  then show "\<forall>i \<le> length text. rmatch banner_pat (drop i text) = None"
    by (simp add: re_find_None_iff)
  from n show "re_split_banner text = [text]" by (rule re_split_banner_None)
  then show "blocks_of text = []" by (simp add: blocks_of_def)
  then show "parse_records b text = []" by (simp add: parse_records_def)
next
  assume s: "re_find banner_pat text = Some (pre, rest)"
  then show "\<exists>g m. m \<noteq> [] \<and> text = pre @ m @ rest \<and>
      rmatch banner_pat (m @ rest) = Some (g, rest)"
    unfolding banner_pat_def by (rule re_find_decompose)
  from re_find_SomeD [OF s]
  show "\<forall>i < length pre. rmatch banner_pat (drop i text) = None" by blast
  from s show split: "re_split_banner text = pre # re_split_banner rest"
    by (rule re_split_banner_Some)
  then show blocks: "blocks_of text = re_split_banner rest" by (simp add: blocks_of_def)
  then show "parse_records b text = map (parse_block b) (re_split_banner rest)"
    by (simp add: parse_records_def)
qed

text \<open>A text with two banners, and one with none.\<close>

definition text_two_blocks :: string where
  "text_two_blocks = ''junk *** TM-align (Version 2019) ***A* TM-align *B''"

lemma two_blocks_find:
  "re_find banner_pat text_two_blocks = Some (''junk '', ''A* TM-align *B'')"
  by code_simp

lemma two_blocks_rest: "re_split_banner ''A* TM-align *B'' = [''A'', ''B'']"
  by code_simp

lemma no_banner_find: "re_find banner_pat ''no banner here'' = None"
  by code_simp

theorem C6_block_splitter_witness:
  "blocks_of text_two_blocks = [''A'', ''B''] \<and>
   parse_records ''qA'' text_two_blocks = [parse_block ''qA'' ''A'', parse_block ''qA'' ''B''] \<and>
   blocks_of ''no banner here'' = [] \<and> parse_records ''qA'' ''no banner here'' = []"
  using C6_block_splitter [of text_two_blocks "''qA''" "''junk ''" "''A* TM-align *B''"]
    C6_block_splitter [of "''no banner here''" "''qA''" "[]" "[]"]
    two_blocks_find two_blocks_rest no_banner_find
  by simp

subsection \<open>The run over the files\<close>

text \<open>
  What the body of the loop computes for one file: the sorted table, the stack, the
  path of the stack file, the events it appends and the entry it records.
\<close>

definition sorted_table :: "(arec list \<Rightarrow> arec list) \<Rightarrow> string \<times> string \<Rightarrow> arec list" where
  "sorted_table sort_values f =
     sort_values (map (\<lambda>r. r\<lparr>chosen := pd_to_numeric (chosen r)\<rparr>)
       (parse_records (basename_of (fst f)) (snd f)))"

definition stack_table ::
  "(arec list \<Rightarrow> arec list) \<Rightarrow> pyfloat \<Rightarrow> string \<times> string \<Rightarrow> arec list" where
  "stack_table sort_values t f = stack_of t (sorted_table sort_values f)"

definition stack_path :: "string \<times> string \<Rightarrow> string" where
  "stack_path f = ''tm-stacks/'' @ basename_of (fst f) @ ''.tab''"

definition file_events ::
  "(arec list \<Rightarrow> arec list) \<Rightarrow> pyfloat \<Rightarrow> string \<times> string \<Rightarrow> fs_event list" where
  "file_events sort_values t f =
     [ToCsv (''c-tm/all_tab/'' @ basename_of (fst f) @ ''.tab'') True
        (parse_records (basename_of (fst f)) (snd f)),
      MakeDirs (os_path_dirname (''c-tm/all_tab_sorted/'' @ basename_of (fst f) @ ''_sorted.tab'')),
      ToCsv (''c-tm/all_tab_sorted/'' @ basename_of (fst f) @ ''_sorted.tab'') True
        (sorted_table sort_values f)] @
     (if stack_table sort_values t f \<noteq> []
      then [ToCsv (stack_path f) False (stack_table sort_values t f)] else [])"

definition count_entry ::
  "(arec list \<Rightarrow> arec list) \<Rightarrow> pyfloat \<Rightarrow> string \<times> string \<Rightarrow> string \<times> nat" where
  "count_entry sort_values t f = (basename_of (fst f), length (stack_table sort_values t f))"

lemma process_file_eq:
  "process_file srt t st f =
     \<lparr>all_summary = all_summary st @ [sorted_table srt f],
      stack_counts = dict_set (stack_counts st) (fst (count_entry srt t f)) (snd (count_entry srt t f)),
      events = events st @ file_events srt t f\<rparr>"
  by (simp add: process_file_def Let_def sorted_table_def stack_table_def file_events_def
      count_entry_def stack_path_def)

lemma run_files_snoc:
  "run_files srt t (files @ [f]) = process_file srt t (run_files srt t files) f"
  by (simp add: run_files_def)

lemma run_files_all_summary:
  "all_summary (run_files srt t files) = map (sorted_table srt) files"
  by (induction files rule: rev_induct)
    (simp_all add: run_files_snoc process_file_eq, simp add: run_files_def init_state_def)

lemma run_files_log:
  "events (run_files srt t files) = events init_state @ concat (map (file_events srt t) files)"
  by (induction files rule: rev_induct)
    (simp_all add: run_files_snoc process_file_eq, simp add: run_files_def)




lemma distinct_key_eq:
  "distinct (map k xs) \<Longrightarrow> x \<in> set xs \<Longrightarrow> y \<in> set xs \<Longrightarrow> k x = k y \<Longrightarrow> x = y"
  by (auto simp: distinct_map dest: inj_onD)

lemma stack_event_of_file:
  "ToCsv (stack_path f) h rows \<in> set (file_events srt t g) \<longleftrightarrow>
     basename_of (fst g) = basename_of (fst f) \<and> h = False \<and>
     rows = stack_table srt t g \<and> rows \<noteq> []"
  by (auto simp: file_events_def stack_path_def)

text \<open>
  C8. The glob gives paths with distinct base names. For each file of the run, an event
  that writes the stack file of that file is in the log exactly when it writes, with no
  header row, the stack table of the file and that table is not empty: with an empty
  stack table nothing is written to the path.
\<close>

theorem C8_stack_file_written:
  assumes "distinct (map (basename_of \<circ> fst) files)" and "f \<in> set files"
  shows "ToCsv (stack_path f) h rows \<in> set (snd (parse_and_save sort_values t date_str files))
     \<longleftrightarrow> h = False \<and> rows = stack_table sort_values t f \<and> stack_table sort_values t f \<noteq> []"
proof -
  from assms(2) obtain f0 fs where "all_summary (run_files sort_values t files) =
      sorted_table sort_values f0 # fs"
    by (cases files) (auto simp: run_files_all_summary)
  then have "set (snd (parse_and_save sort_values t date_str files)) =
      set (events init_state) \<union> (\<Union>g \<in> set files. set (file_events sort_values t g)) \<union>
      {ToCsv (analysis_name @ ''_all_results_'' @ date_str @ ''.tab'') True
         (concat (all_summary (run_files sort_values t files))),
       CountsToCsv (analysis_name @ ''_stack_counts_'' @ date_str @ ''.tab'')
         (stack_counts (run_files sort_values t files))}"
    by (auto simp: parse_and_save_def Let_def run_files_log)
  then have "ToCsv (stack_path f) h rows \<in> set (snd (parse_and_save sort_values t date_str files))
      \<longleftrightarrow> (\<exists>g \<in> set files. ToCsv (stack_path f) h rows \<in> set (file_events sort_values t g))"
    by (auto simp: init_state_def stack_path_def analysis_name_def)
  also have "\<dots> \<longleftrightarrow> h = False \<and> rows = stack_table sort_values t f \<and>
      stack_table sort_values t f \<noteq> []"
  proof
    assume "\<exists>g \<in> set files. ToCsv (stack_path f) h rows \<in> set (file_events sort_values t g)"
    then obtain g where g: "g \<in> set files" "basename_of (fst g) = basename_of (fst f)"
      "h = False" "rows = stack_table sort_values t g" "rows \<noteq> []"
      by (auto simp: stack_event_of_file)
    from distinct_key_eq [OF assms(1) g(1) assms(2)] g(2) have "g = f" by simp
    with g show "h = False \<and> rows = stack_table sort_values t f \<and>
      stack_table sort_values t f \<noteq> []" by simp
  next
    assume "h = False \<and> rows = stack_table sort_values t f \<and> stack_table sort_values t f \<noteq> []"
    with assms(2) show "\<exists>g \<in> set files.
        ToCsv (stack_path f) h rows \<in> set (file_events sort_values t g)"
      by (auto simp: stack_event_of_file)
  qed
  finally show ?thesis .
qed


text \<open>
  C10. The table written for a file is decided by the text and the base name alone:
  two runs of the loop body on the same text, for paths with the same base name, write
  the same records in the same order, whatever the state before, the sort routine and
  the threshold; the records are the images of the blocks, each parsed from its own
  text and the base name.
\<close>

theorem C10_records_determined:
  assumes "basename_of p1 = basename_of p2"
  shows "events (process_file srt1 t1 st1 (p1, text)) ! length (events st1) =
           events (process_file srt2 t2 st2 (p2, text)) ! length (events st2) \<and>
         events (process_file srt1 t1 st1 (p1, text)) ! length (events st1) =
           ToCsv (''c-tm/all_tab/'' @ basename_of p1 @ ''.tab'') True
             (map (parse_block (basename_of p1)) (blocks_of text)) \<and>
         parse_records (basename_of p1) text = parse_records (basename_of p2) text"
  using assms
  by (simp add: process_file_eq file_events_def parse_records_def nth_append)


text \<open>
  The paths of \<^verbatim>\<open>glob.glob('c-tm/all/*.aln')\<close> are \<^verbatim>\<open>c-tm/all/\<close>, a file name that does
  not start with a dot, and \<^verbatim>\<open>.aln\<close>: the base name is that file name, so distinct
  paths of the glob have distinct base names.
\<close>

lemma rfind_last:
  "c \<notin> set ys \<Longrightarrow> rfind c (xs @ c # ys) = int (length xs)"
proof -
  assume "c \<notin> set ys"
  then have "takeWhile (\<lambda>d. d \<noteq> c) (rev ys @ c # rev xs) = rev ys"
    by (subst takeWhile_append2) auto
  then show ?thesis by (simp add: rfind_def)
qed

lemma glob_basename:
  assumes "nm \<noteq> []" and "hd nm \<noteq> CHR ''.''" and "CHR ''/'' \<notin> set nm"
  shows "basename_of (''c-tm/all/'' @ nm @ ''.aln'') = nm"
proof -
  have "rfind CHR ''/'' (''c-tm/all/'' @ nm @ ''.aln'') = 8"
    using rfind_last [of "CHR ''/''" "nm @ ''.aln''" "''c-tm/all''"] assms(3) by simp
  then have base: "os_path_basename (''c-tm/all/'' @ nm @ ''.aln'') = nm @ ''.aln''"
    by (simp add: os_path_basename_def)
  have sep: "rfind CHR ''/'' (nm @ ''.aln'') = - 1"
    using assms(3) by (simp add: rfind_def)
  have dot: "rfind CHR ''.'' (nm @ ''.aln'') = int (length nm)"
    using rfind_last [of "CHR ''.''" "''aln''" nm] by simp
  from assms(1,2) have "list_ex (\<lambda>c. c \<noteq> CHR ''.'') nm"
    by (cases nm) auto
  with sep dot have "os_path_splitext_root (nm @ ''.aln'') = nm"
    by (simp add: os_path_splitext_root_def Let_def)
  with base show ?thesis by (simp add: basename_of_def)
qed

lemma glob_basenames_distinct:
  assumes "distinct nms"
    and "\<forall>nm \<in> set nms. nm \<noteq> [] \<and> hd nm \<noteq> CHR ''.'' \<and> CHR ''/'' \<notin> set nm"
  shows "distinct (map (\<lambda>nm. basename_of (''c-tm/all/'' @ nm @ ''.aln'')) nms)"
proof -
  have "map (\<lambda>nm. basename_of (''c-tm/all/'' @ nm @ ''.aln'')) nms = map (\<lambda>nm. nm) nms"
    by (rule map_cong) (use assms(2) glob_basename in blast)+
  with assms(1) show ?thesis by simp
qed

text \<open>
  A concrete run: one routine that orders a table by decreasing chosen score, the text
  of a file with two blocks (the first with the scores 0.72 and 0.65, the second with
  0.40 only) and a file with no banner.
\<close>

fun insert_desc :: "arec \<Rightarrow> arec list \<Rightarrow> arec list" where
  "insert_desc r [] = [r]"
| "insert_desc r (x # xs) =
     (if float_lt (chosen x) (chosen r) then r # x # xs else x # insert_desc r xs)"

definition example_sort :: "arec list \<Rightarrow> arec list" where
  "example_sort df = foldr insert_desc df []"

definition text_scenario :: string where
  "text_scenario =
     ''*** TM-align ***'' @ [CHR 0x0A] @
     ''Name of Chain_2: t1'' @ [CHR 0x0A] @
     ''TM-score= 0.72 (if normalized by length of Chain_1, a)'' @ [CHR 0x0A] @
     ''TM-score= 0.65 (if normalized by length of Chain_2, b)'' @ [CHR 0x0A] @
     ''*** TM-align ***'' @ [CHR 0x0A] @
     ''Name of Chain_2: t2'' @ [CHR 0x0A] @
     ''TM-score= 0.40 (if normalized by length of Chain_1, a)'' @ [CHR 0x0A]"

definition example_files :: "(string \<times> string) list" where
  "example_files = [(''c-tm/all/qA.aln'', text_scenario), (''c-tm/all/qB.aln'', ''no banner here'')]"


lemma example_basenames:
  "basename_of ''c-tm/all/qA.aln'' = ''qA'' \<and> basename_of ''c-tm/all/qB.aln'' = ''qB'' \<and>
   basename_of ''elsewhere/qA.aln'' = ''qA''"
  by code_simp

lemma example_distinct: "distinct (map (basename_of \<circ> fst) example_files)"
  using example_basenames by (simp add: example_files_def)


lemma scenario_stack:
  "stack_table example_sort score_threshold (''c-tm/all/qA.aln'', text_scenario) =
     [\<lparr>query = ''qA.pdb'', template = ''t1.pdb'', qlen = [], tlen = [], RMSD = [], ident = [],
       TM1 = ''0.72'', TM2 = ''0.65'',
       chosen = Finite (3242591731706757 / 4503599627370496)\<rparr>]"
  by code_simp


theorem C8_stack_file_written_witness:
  "ToCsv ''tm-stacks/qA.tab'' False
     [\<lparr>query = ''qA.pdb'', template = ''t1.pdb'', qlen = [], tlen = [], RMSD = [], ident = [],
       TM1 = ''0.72'', TM2 = ''0.65'',
       chosen = Finite (3242591731706757 / 4503599627370496)\<rparr>]
     \<in> set (snd (parse_and_save example_sort score_threshold ''20260101'' example_files)) \<and>
   ToCsv ''tm-stacks/qB.tab'' False []
     \<notin> set (snd (parse_and_save example_sort score_threshold ''20260101'' example_files))"
proof -
  let ?fA = "(''c-tm/all/qA.aln'', text_scenario)"
  let ?fB = "(''c-tm/all/qB.aln'', ''no banner here'')"
  have inA: "?fA \<in> set example_files" and inB: "?fB \<in> set example_files"
    by (simp_all add: example_files_def)
  have pA: "stack_path ?fA = ''tm-stacks/qA.tab''" and pB: "stack_path ?fB = ''tm-stacks/qB.tab''"
    using example_basenames by (simp_all add: stack_path_def)
  show ?thesis
    using C8_stack_file_written [OF example_distinct inA, of False
        "stack_table example_sort score_threshold ?fA" example_sort score_threshold "''20260101''"]
      C8_stack_file_written [OF example_distinct inB, of False "[]" example_sort score_threshold
        "''20260101''"]
      scenario_stack pA pB
    by simp
qed


theorem C10_records_determined_witness:
  "events (process_file example_sort score_threshold init_state
       (''c-tm/all/qA.aln'', text_scenario)) ! 3 =
   events (process_file (\<lambda>df. []) NaN \<lparr>all_summary = [], stack_counts = [], events = []\<rparr>
       (''elsewhere/qA.aln'', text_scenario)) ! 0 \<and>
   parse_records (basename_of ''c-tm/all/qA.aln'') text_scenario =
   parse_records (basename_of ''elsewhere/qA.aln'') text_scenario"
proof -
  have b: "basename_of ''c-tm/all/qA.aln'' = basename_of ''elsewhere/qA.aln''"
    using example_basenames by simp
  have l1: "length (events init_state) = 3"
    by (simp add: init_state_def)
  have l2: "length (events \<lparr>all_summary = [], stack_counts = [], events = []\<rparr>) = 0"
    by simp
  show ?thesis
    using C10_records_determined [OF b, of example_sort score_threshold init_state text_scenario
        "\<lambda>df. []" NaN "\<lparr>all_summary = [], stack_counts = [], events = []\<rparr>"]
    unfolding l1 l2 by blast
qed

subsection \<open>No per-query file\<close>

text \<open>
  C5. With no per-query file the loop does not run, \<^verbatim>\<open>pd.concat\<close> gets the empty list
  and raises ValueError: the run ends with that error, and the log holds the three
  folders only, so no summary table, empty or not, has been written.
\<close>

theorem C5_no_files_raises:
  "parse_and_save sort_values threshold date_str [] =
     (Inl (ValueError ''No objects to concatenate''),
      [MakeDirs ''c-tm/all_tab'', MakeDirs ''c-tm/all_tab_sorted'', MakeDirs ''tm-stacks''])"
  by (simp add: parse_and_save_def run_files_def init_state_def)

theorem C5_no_files_raises_witness:
  "fst (parse_and_save example_sort score_threshold ''20260101'' []) =
     Inl (ValueError ''No objects to concatenate'') \<and>
   (\<nexists>p h rows. ToCsv p h rows \<in>
      set (snd (parse_and_save example_sort score_threshold ''20260101'' [])))"
  using C5_no_files_raises [of example_sort score_threshold "''20260101''"]
  by simp

end
